theory Spec2Isabelle
  imports Main "HOL-Library.Word"
begin

section \<open>Data model\<close>

text \<open>
  A Python 3 \<open>bytes\<close> object is a list of 8-bit words, a \<open>str\<close> is a \<open>string\<close>.
  Every exception that the module or the library functions it calls can raise is a
  constructor of \<open>error\<close>; a function that can raise returns \<open>error + 'a\<close>.
\<close>

type_synonym bytes = "8 word list"

datatype error =
    InvalidBase58Error char
  | Base58ChecksumError bytes bytes
  | ValueError
  | BinasciiError
  | IndexError

definition b58_digits :: string where
  "b58_digits = ''123456789ABCDEFGHJKLMNPQRSTUVWXYZabcdefghijkmnopqrstuvwxyz''"

section \<open>The Python built-ins that base58.py calls\<close>

definition hex_digits :: string where
  "hex_digits = ''0123456789abcdef''"

text \<open>\<open>str.index\<close>: the first position of a character, \<open>None\<close> where Python raises.\<close>

fun str_index :: "string \<Rightarrow> char \<Rightarrow> nat option" where
  "str_index [] c = None"
| "str_index (x # xs) c =
     (if x = c then Some 0 else map_option Suc (str_index xs c))"

text \<open>The value of one hexadecimal digit, in either case, as \<open>int(s, 16)\<close> and
  \<open>binascii.unhexlify\<close> read it.\<close>

definition hex_value :: "char \<Rightarrow> nat option" where
  "hex_value c =
     (case str_index hex_digits c of
        Some d \<Rightarrow> Some d
      | None \<Rightarrow> map_option (\<lambda>d. d + 10) (str_index ''ABCDEF'' c))"

text \<open>\<open>binascii.hexlify\<close>: two lower-case hexadecimal digits for every byte.\<close>

definition hexlify :: "bytes \<Rightarrow> string" where
  "hexlify b =
     concat (map (\<lambda>w. [hex_digits ! (unat w div 16), hex_digits ! (unat w mod 16)]) b)"

text \<open>\<open>int(s, 16)\<close> on a string without sign, blanks or underscores: an optional
  \<open>0x\<close> prefix, then at least one hexadecimal digit; \<open>ValueError\<close> otherwise.\<close>

fun hex_accum :: "string \<Rightarrow> nat \<Rightarrow> nat option" where
  "hex_accum [] n = Some n"
| "hex_accum (c # cs) n =
     (case hex_value c of None \<Rightarrow> None | Some d \<Rightarrow> hex_accum cs (n * 16 + d))"

definition int_base16 :: "string \<Rightarrow> error + nat" where
  "int_base16 s =
     (let t = (if take 2 s = ''0x'' \<or> take 2 s = ''0X'' then drop 2 s else s)
      in if t = [] then Inl ValueError
         else case hex_accum t 0 of None \<Rightarrow> Inl ValueError | Some n \<Rightarrow> Inr n)"

text \<open>\<open>'%x' % n\<close> for a non-negative \<open>n\<close>: lower-case hexadecimal without leading
  zeros, \<open>'0'\<close> for zero.\<close>

function format_x :: "nat \<Rightarrow> string" where
  "format_x n =
     (if n < 16 then [hex_digits ! n]
      else format_x (n div 16) @ [hex_digits ! (n mod 16)])"
  by pat_completeness auto
termination
  by (relation "measure id") auto

text \<open>\<open>binascii.unhexlify\<close>: pairs of hexadecimal digits to bytes;
  \<open>binascii.Error\<close> on an odd length or on a character that is no digit.\<close>

fun unhexlify :: "string \<Rightarrow> error + bytes" where
  "unhexlify [] = Inr []"
| "unhexlify [c] = Inl BinasciiError"
| "unhexlify (a # b # cs) =
     (case (hex_value a, hex_value b) of
        (Some x, Some y) \<Rightarrow>
          (case unhexlify cs of
             Inl e \<Rightarrow> Inl e
           | Inr bs \<Rightarrow> Inr (of_nat (x * 16 + y) # bs))
      | _ \<Rightarrow> Inl BinasciiError)"

text \<open>\<open>bchr = lambda x: bytes([x])\<close>: \<open>ValueError\<close> outside \<open>range(256)\<close>.\<close>

definition bchr :: "int \<Rightarrow> error + bytes" where
  "bchr x = (if 0 \<le> x \<and> x < 256 then Inr [word_of_int x] else Inl ValueError)"

section \<open>encode\<close>

text \<open>The loop \<open>while n > 0: n, r = divmod(n, 58); res.append(b58_digits[r])\<close>.\<close>

function divide_loop :: "nat \<Rightarrow> string \<Rightarrow> string" where
  "divide_loop n res =
     (if n > 0 then divide_loop (n div 58) (res @ [b58_digits ! (n mod 58)]) else res)"
  by pat_completeness auto
termination
  by (relation "measure fst") auto

text \<open>The loop \<open>for c in b: if c == czero: pad += 1 else: break\<close>, which decode runs
  as well, over characters.\<close>

fun count_pad :: "'a \<Rightarrow> 'a list \<Rightarrow> nat \<Rightarrow> nat" where
  "count_pad z [] pad = pad"
| "count_pad z (c # cs) pad = (if c = z then count_pad z cs (pad + 1) else pad)"

definition encode :: "bytes \<Rightarrow> error + string" where
  "encode b =
     (case int_base16 (''0x0'' @ hexlify b) of
        Inl e \<Rightarrow> Inl e
      | Inr n \<Rightarrow>
          (let res = rev (divide_loop n []);
               pad = count_pad 0 b 0
           in Inr (replicate pad (b58_digits ! 0) @ res)))"

section \<open>decode\<close>

text \<open>The loop over the characters of \<open>s\<close> that accumulates \<open>n\<close> and raises on a
  character outside the alphabet.\<close>

fun decode_loop :: "string \<Rightarrow> nat \<Rightarrow> error + nat" where
  "decode_loop [] n = Inr n"
| "decode_loop (c # cs) n =
     (if c \<notin> set b58_digits then Inl (InvalidBase58Error c)
      else case str_index b58_digits c of
             None \<Rightarrow> Inl ValueError
           | Some digit \<Rightarrow> decode_loop cs (n * 58 + digit))"

definition decode :: "string \<Rightarrow> error + bytes" where
  "decode s =
     (if s = [] then Inr []
      else case decode_loop s 0 of
             Inl e \<Rightarrow> Inl e
           | Inr n \<Rightarrow>
               (let h = format_x n;
                    h = (if length h mod 2 \<noteq> 0 then CHR ''0'' # h else h)
                in case unhexlify h of
                     Inl e \<Rightarrow> Inl e
                   | Inr res \<Rightarrow>
                       (let pad = count_pad (b58_digits ! 0) (butlast s) 0
                        in Inr (replicate pad 0 @ res))))"

section \<open>CBase58Data\<close>

text \<open>An instance is the payload bytes together with the attribute \<open>nVersion\<close>.
  \<open>bitcoin.core.Hash\<close> lives in another module and is a parameter of the two methods
  that call it.\<close>

record CBase58Data =
  data :: bytes
  nVersion :: int

definition CBase58Data_new :: "(bytes \<Rightarrow> bytes) \<Rightarrow> string \<Rightarrow> error + CBase58Data" where
  "CBase58Data_new Hash s =
     (case decode s of
        Inl e \<Rightarrow> Inl e
      | Inr k \<Rightarrow>
          (let verbyte = take 1 k;
               dat = drop 1 (take (length k - 4) k);
               check0 = drop (length k - 4) k;
               check1 = take 4 (Hash (verbyte @ dat))
           in if check0 \<noteq> check1 then Inl (Base58ChecksumError check0 check1)
              else case verbyte of
                     [] \<Rightarrow> Inl IndexError
                   | v # _ \<Rightarrow> Inr \<lparr>data = dat, nVersion = uint v\<rparr>))"

definition from_bytes :: "bytes \<Rightarrow> int \<Rightarrow> error + CBase58Data" where
  "from_bytes dat nVer =
     (if \<not> (0 \<le> nVer \<and> nVer \<le> 255) then Inl ValueError
      else Inr \<lparr>data = dat, nVersion = nVer\<rparr>)"

definition to_bytes :: "CBase58Data \<Rightarrow> bytes" where
  "to_bytes self = [] @ data self"

definition CBase58Data_str :: "(bytes \<Rightarrow> bytes) \<Rightarrow> CBase58Data \<Rightarrow> error + string" where
  "CBase58Data_str Hash self =
     (case bchr (nVersion self) of
        Inl e \<Rightarrow> Inl e
      | Inr c \<Rightarrow>
          (let vs = c @ data self;
               check = take 4 (Hash vs)
           in encode (vs @ check)))"

section \<open>Reference notions of the specification\<close>

text \<open>Modelled from the spec: \<open>bitcoin.core.Hash\<close> is defined in another module of the
  repository, which is not part of the sources at hand. The specification describes the
  checksum as the digest primitive of the environment applied twice; \<open>H\<close> is that
  primitive.\<close>

definition core_Hash :: "(bytes \<Rightarrow> bytes) \<Rightarrow> bytes \<Rightarrow> bytes" where
  "core_Hash H msg = H (H msg)"

text \<open>The big-endian unsigned integer that a byte string denotes.\<close>

definition be_value :: "bytes \<Rightarrow> nat" where
  "be_value b = foldl (\<lambda>n w. n * 256 + unat w) 0 b"

text \<open>The minimal big-endian byte string of a number: no leading zero byte, hence no
  byte at all for zero.\<close>

function be_bytes :: "nat \<Rightarrow> bytes" where
  "be_bytes n = (if n = 0 then [] else be_bytes (n div 256) @ [of_nat (n mod 256)])"
  by pat_completeness auto
termination
  by (relation "measure id") auto

text \<open>The base-58 digit sequence of a number, most significant digit first; empty for
  zero.\<close>

function b58_repr :: "nat \<Rightarrow> string" where
  "b58_repr n = (if n = 0 then [] else b58_repr (n div 58) @ [b58_digits ! (n mod 58)])"
  by pat_completeness auto
termination
  by (relation "measure id") auto

text \<open>The digit value of an alphabet character and the number that a string of
  alphabet characters denotes, \<open>n = n * 58 + index_of(char)\<close> from left to right.\<close>

definition b58_index :: "char \<Rightarrow> nat" where
  "b58_index c = length (takeWhile (\<lambda>x. x \<noteq> c) b58_digits)"

definition b58_value :: "string \<Rightarrow> nat" where
  "b58_value s = foldl (\<lambda>n c. n * 58 + b58_index c) 0 s"

text \<open>The number of leading elements equal to \<open>z\<close>.\<close>

definition leading :: "'a \<Rightarrow> 'a list \<Rightarrow> nat" where
  "leading z xs = length (takeWhile (\<lambda>c. c = z) xs)"

text \<open>The step of decode that makes the number of hexadecimal digits even.\<close>

definition pad_even :: "string \<Rightarrow> string" where
  "pad_even h = (if length h mod 2 \<noteq> 0 then CHR ''0'' # h else h)"

text \<open>A stand-in for the digest collaborator, with 32-byte results, for closed
  instances of the theorems below.\<close>

definition sample_Hash :: "bytes \<Rightarrow> bytes" where
  "sample_Hash m = replicate 32 (of_nat (length m))"

section \<open>Facts about the built-ins\<close>

declare format_x.simps [simp del] divide_loop.simps [simp del] b58_repr.simps [simp del]
  be_bytes.simps [simp del]

lemma str_index_nth:
  "distinct xs \<Longrightarrow> i < length xs \<Longrightarrow> str_index xs (xs ! i) = Some i"
proof (induction xs arbitrary: i)
  case Nil
  then show ?case by simp
next
  case (Cons x xs)
  show ?case
  proof (cases i)
    case 0
    then show ?thesis by simp
  next
    case (Suc j)
    with Cons.prems have "xs ! j \<noteq> x" "j < length xs" "distinct xs"
      by auto
    with Cons.IH [of j] Suc show ?thesis by auto
  qed
qed

lemma str_index_takeWhile:
  "c \<in> set xs \<Longrightarrow> str_index xs c = Some (length (takeWhile (\<lambda>x. x \<noteq> c) xs))"
  by (induction xs) auto

lemma distinct_b58_digits: "distinct b58_digits"
  by (simp add: b58_digits_def)

lemma length_b58_digits: "length b58_digits = 58"
  by (simp add: b58_digits_def)

lemma b58_digits_0: "b58_digits ! 0 = CHR ''1''"
  by (simp add: b58_digits_def)

lemma distinct_hex_digits: "distinct hex_digits"
  by (simp add: hex_digits_def)

lemma length_hex_digits: "length hex_digits = 16"
  by (simp add: hex_digits_def)

lemma hex_value_nth: "i < 16 \<Longrightarrow> hex_value (hex_digits ! i) = Some i"
  by (simp add: hex_value_def str_index_nth distinct_hex_digits length_hex_digits)

lemma hex_value_0: "hex_value CHR ''0'' = Some 0"
  by (simp add: hex_value_def hex_digits_def)

lemma unat_byte_less: "unat w < 256" for w :: "8 word"
  using unsigned_less [of w, where ?'a = nat] by simp

lemma hex_accum_hexlify:
  "hex_accum (hexlify b) n = Some (foldl (\<lambda>n w. n * 256 + unat w) n b)"
proof (induction b arbitrary: n)
  case Nil
  then show ?case by (simp add: hexlify_def)
next
  case (Cons w ws)
  have "unat w div 16 < 16"
    using unat_byte_less [of w] by simp
  moreover have "hexlify (w # ws) =
      hex_digits ! (unat w div 16) # hex_digits ! (unat w mod 16) # hexlify ws"
    by (simp add: hexlify_def)
  moreover have "n * 16 * 16 + unat w div 16 * 16 + unat w mod 16 = n * 256 + unat w"
    by simp
  ultimately show ?case
    using Cons.IH [of "n * 256 + unat w"] by (simp add: hex_value_nth add.assoc mult.commute)
qed

lemma int_base16_hexlify: "int_base16 (''0x0'' @ hexlify b) = Inr (be_value b)"
  by (simp add: int_base16_def hex_accum_hexlify hex_value_0 be_value_def)

lemma unhexlify_snoc2:
  "even (length xs) \<Longrightarrow> hex_value a = Some x \<Longrightarrow> hex_value b = Some y \<Longrightarrow>
   unhexlify (xs @ [a, b]) =
     (case unhexlify xs of Inl e \<Rightarrow> Inl e | Inr bs \<Rightarrow> Inr (bs @ [of_nat (x * 16 + y)]))"
  by (induction xs rule: unhexlify.induct) (auto split: option.splits sum.splits)

lemma format_x_256:
  assumes "256 \<le> n"
  shows "format_x n =
     format_x (n div 256) @ [hex_digits ! (n div 16 mod 16), hex_digits ! (n mod 16)]"
proof -
  from assms have "\<not> n < 16" "\<not> n div 16 < 16" by auto
  moreover have "n div 16 div 16 = n div 256"
    by (simp add: div_mult2_eq [symmetric])
  ultimately show ?thesis
    by (subst format_x.simps, subst format_x.simps) simp
qed

lemma even_length_pad_even: "even (length (pad_even h))"
  by (auto simp: pad_even_def)

lemma pad_even_snoc2: "pad_even (h @ [a, b]) = pad_even h @ [a, b]"
  by (auto simp: pad_even_def)

lemma byte_of_nibbles: "n div 16 mod 16 * 16 + n mod 16 = n mod 256" for n :: nat
proof -
  have "n mod 256 = n mod 16 + 16 * (n div 16 mod 16)"
    using mod_mult2_eq [of n 16 16] by simp
  then show ?thesis by simp
qed

lemma unhexlify_format_x:
  "unhexlify (pad_even (format_x n)) = Inr (if n = 0 then [0] else be_bytes n)"
proof (induction n rule: be_bytes.induct)
  case (1 n)
  consider "n < 16" | "16 \<le> n" "n < 256" | "256 \<le> n" by linarith
  then show ?case
  proof cases
    case 1
    then have "format_x n = [hex_digits ! n]"
      by (subst format_x.simps) simp
    moreover have "be_bytes n = [of_nat n]" if "n \<noteq> 0"
      using that 1 by (subst be_bytes.simps, subst be_bytes.simps) simp
    ultimately show ?thesis
      using 1 by (auto simp: pad_even_def hex_value_0 hex_value_nth)
  next
    case 2
    then have d: "n div 16 < 16" by simp
    have "format_x n = [hex_digits ! (n div 16), hex_digits ! (n mod 16)]"
      using 2 d by (subst format_x.simps, subst format_x.simps) simp
    moreover have "be_bytes n = [of_nat n]"
      using 2 by (subst be_bytes.simps, subst be_bytes.simps) simp
    moreover note d
    ultimately show ?thesis
      using 2 by (auto simp: pad_even_def hex_value_nth)
  next
    case 3
    then have nz: "n \<noteq> 0" "n div 256 \<noteq> 0" by auto
    have "unhexlify (pad_even (format_x n)) =
        (case unhexlify (pad_even (format_x (n div 256))) of
           Inl e \<Rightarrow> Inl e
         | Inr bs \<Rightarrow> Inr (bs @ [of_nat (n div 16 mod 16 * 16 + n mod 16)]))"
      unfolding format_x_256 [OF 3] pad_even_snoc2
      by (rule unhexlify_snoc2) (simp_all add: even_length_pad_even hex_value_nth)
    also have "\<dots> = Inr (be_bytes (n div 256) @ [of_nat (n mod 256)])"
      using "1.IH" nz by (simp add: byte_of_nibbles)
    also have "be_bytes (n div 256) @ [of_nat (n mod 256)] = be_bytes n"
      using nz by (subst (2) be_bytes.simps) simp
    finally show ?thesis using nz by simp
  qed
qed

lemma unhexlify_pad:
  "unhexlify (if length (format_x n) mod 2 \<noteq> 0 then CHR ''0'' # format_x n else format_x n) =
     Inr (if n = 0 then [0] else be_bytes n)"
  using unhexlify_format_x [of n] by (simp add: pad_even_def)

section \<open>Facts about the reference notions\<close>

lemma be_value_snoc: "be_value (b @ [w]) = be_value b * 256 + unat w"
  by (simp add: be_value_def)

lemma be_value_zero: "be_value b = 0 \<longleftrightarrow> (\<forall>x\<in>set b. x = 0)"
proof (induction b rule: rev_induct)
  case Nil
  then show ?case by (simp add: be_value_def)
next
  case (snoc w b)
  then show ?case by (auto simp: be_value_snoc unat_eq_0)
qed

lemma be_bytes_0: "be_bytes 0 = []"
  by (subst be_bytes.simps) simp

lemma be_bytes_step:
  "n \<noteq> 0 \<Longrightarrow> be_bytes n = be_bytes (n div 256) @ [of_nat (n mod 256)]"
  by (subst be_bytes.simps) simp

lemma be_bytes_be_value: "be_bytes (be_value b) = dropWhile (\<lambda>x. x = 0) b"
proof (induction b rule: rev_induct)
  case Nil
  then show ?case by (simp add: be_bytes_0 be_value_def)
next
  case (snoc w b)
  let ?v = "be_value b * 256 + unat w"
  note w = unat_byte_less [of w]
  show ?case
  proof (cases "?v = 0")
    case True
    then have "\<forall>x\<in>set (b @ [w]). x = 0"
      using be_value_zero [of "b @ [w]"] by (simp add: be_value_snoc)
    then have "dropWhile (\<lambda>x. x = 0) (b @ [w]) = []"
      by (simp only: dropWhile_eq_Nil_conv)
    with True show ?thesis by (simp add: be_value_snoc be_bytes_0)
  next
    case False
    have "?v div 256 = be_value b" "?v mod 256 = unat w"
      using w by simp_all
    with False have eq: "be_bytes ?v = dropWhile (\<lambda>x. x = 0) b @ [w]"
      using snoc.IH by (simp add: be_bytes_step)
    show ?thesis
    proof (cases "\<forall>x\<in>set b. x = 0")
      case True
      then have "be_value b = 0" by (simp add: be_value_zero)
      with False have "w \<noteq> 0" by (auto simp: unat_eq_0)
      with True eq show ?thesis by (simp add: be_value_snoc)
    next
      case False
      then show ?thesis using eq by (auto simp: be_value_snoc)
    qed
  qed
qed

lemma b58_repr_0: "b58_repr 0 = []"
  by (subst b58_repr.simps) simp

lemma b58_repr_step:
  "n \<noteq> 0 \<Longrightarrow> b58_repr n = b58_repr (n div 58) @ [b58_digits ! (n mod 58)]"
  by (subst b58_repr.simps) simp

lemma b58_repr_Nil: "b58_repr n = [] \<longleftrightarrow> n = 0"
  by (cases "n = 0") (simp_all add: b58_repr_0 b58_repr_step)

lemma b58_digit_not_zero: "0 < i \<Longrightarrow> i < 58 \<Longrightarrow> b58_digits ! i \<noteq> CHR ''1''"
  using nth_eq_iff_index_eq [OF distinct_b58_digits, of i 0]
  by (simp add: length_b58_digits b58_digits_0)

lemma hd_b58_repr: "n \<noteq> 0 \<Longrightarrow> hd (b58_repr n) \<noteq> CHR ''1''"
proof (induction n rule: b58_repr.induct)
  case (1 n)
  have step: "b58_repr n = b58_repr (n div 58) @ [b58_digits ! (n mod 58)]"
    using "1.prems" by (rule b58_repr_step)
  show ?case
  proof (cases "n div 58 = 0")
    case True
    with "1.prems" have "0 < n mod 58" "n < 58"
      by (auto simp: div_eq_0_iff)
    with step show ?thesis
      using True by (simp add: b58_repr_0 b58_digit_not_zero)
  next
    case False
    with 1 have "hd (b58_repr (n div 58)) \<noteq> CHR ''1''" by simp
    moreover have "b58_repr (n div 58) \<noteq> []"
      using False by (simp add: b58_repr_Nil)
    ultimately show ?thesis using step by simp
  qed
qed

lemma set_b58_repr: "set (b58_repr n) \<subseteq> set b58_digits"
proof (induction n rule: b58_repr.induct)
  case (1 n)
  show ?case
  proof (cases "n = 0")
    case True
    then show ?thesis by (simp add: b58_repr_0)
  next
    case False
    with 1 show ?thesis
      by (simp add: b58_repr_step length_b58_digits)
  qed
qed

lemma takeWhile_replicate_length:
  "replicate (length (takeWhile (\<lambda>c. c = z) xs)) z = takeWhile (\<lambda>c. c = z) xs"
  by (induction xs) auto

lemma takeWhile_replicate_append:
  "takeWhile (\<lambda>c. c = z) (replicate k z @ ys) = replicate k z @ takeWhile (\<lambda>c. c = z) ys"
  by (induction k) auto

section \<open>Facts about encode and decode\<close>

lemma divide_loop_repr: "divide_loop n res = res @ rev (b58_repr n)"
proof (induction n res rule: divide_loop.induct)
  case (1 n res)
  show ?case
  proof (cases "n > 0")
    case True
    with 1 show ?thesis
      by (subst divide_loop.simps, subst b58_repr.simps) simp
  next
    case False
    then show ?thesis
      by (subst divide_loop.simps, subst b58_repr.simps) simp
  qed
qed

lemma count_pad_takeWhile: "count_pad z xs p = p + length (takeWhile (\<lambda>c. c = z) xs)"
  by (induction xs arbitrary: p) auto

lemma encode_eq:
  "encode b =
     Inr (replicate (length (takeWhile (\<lambda>c. c = 0) b)) CHR ''1'' @ b58_repr (be_value b))"
  unfolding encode_def int_base16_hexlify
  by (simp add: divide_loop_repr count_pad_takeWhile b58_digits_0)

lemma decode_loop_append:
  "decode_loop (xs @ ys) n =
     (case decode_loop xs n of Inl e \<Rightarrow> Inl e | Inr m \<Rightarrow> decode_loop ys m)"
  by (induction xs arbitrary: n) (auto split: option.splits)

lemma decode_loop_digit:
  "i < 58 \<Longrightarrow> decode_loop [b58_digits ! i] n = Inr (n * 58 + i)"
  by (simp add: str_index_nth distinct_b58_digits length_b58_digits)

lemma decode_loop_repr: "decode_loop (b58_repr n) 0 = Inr n"
proof (induction n rule: b58_repr.induct)
  case (1 n)
  show ?case
  proof (cases "n = 0")
    case True
    then show ?thesis by (simp add: b58_repr_0)
  next
    case False
    have "decode_loop [b58_digits ! (n mod 58)] (n div 58) = Inr (n div 58 * 58 + n mod 58)"
      by (rule decode_loop_digit) simp
    moreover have "decode_loop (b58_repr (n div 58)) 0 = Inr (n div 58)"
      using 1 False by simp
    moreover have "b58_repr n = b58_repr (n div 58) @ [b58_digits ! (n mod 58)]"
      using False by (rule b58_repr_step)
    ultimately show ?thesis
      by (simp only: decode_loop_append sum.case div_mult_mod_eq)
  qed
qed

lemma decode_loop_ones: "decode_loop (replicate k CHR ''1'') 0 = Inr 0"
proof (induction k)
  case 0
  then show ?case by simp
next
  case (Suc k)
  have "decode_loop [CHR ''1''] 0 = Inr 0"
    using decode_loop_digit [of 0 0] by (simp add: b58_digits_0)
  with Suc show ?case
    using decode_loop_append [of "replicate k CHR ''1''" "[CHR ''1'']" 0]
    by (simp add: replicate_append_same)
qed

lemma decode_loop_valid:
  "set s \<subseteq> set b58_digits \<Longrightarrow>
   decode_loop s n = Inr (foldl (\<lambda>n c. n * 58 + b58_index c) n s)"
  by (induction s arbitrary: n) (simp_all add: str_index_takeWhile b58_index_def)

lemma decode_loop_invalid:
  "\<not> set s \<subseteq> set b58_digits \<Longrightarrow>
   \<exists>c. decode_loop s n = Inl (InvalidBase58Error c) \<and> c \<in> set s \<and> c \<notin> set b58_digits"
proof (induction s arbitrary: n)
  case Nil
  then show ?case by simp
next
  case (Cons a s)
  show ?case
  proof (cases "a \<in> set b58_digits")
    case True
    with Cons.prems have "\<not> set s \<subseteq> set b58_digits" by simp
    from Cons.IH [OF this, of "n * 58 + length (takeWhile (\<lambda>x. x \<noteq> a) b58_digits)"]
    obtain c where "decode_loop s (n * 58 + length (takeWhile (\<lambda>x. x \<noteq> a) b58_digits)) =
        Inl (InvalidBase58Error c)" "c \<in> set s" "c \<notin> set b58_digits"
      by blast
    with True show ?thesis
      by (simp add: str_index_takeWhile)
  next
    case False
    then show ?thesis by simp
  qed
qed

lemma decode_valid:
  assumes "s \<noteq> []" and "set s \<subseteq> set b58_digits"
  shows "decode s =
     Inr (replicate (length (takeWhile (\<lambda>c. c = CHR ''1'') (butlast s))) 0 @
          (if b58_value s = 0 then [0] else be_bytes (b58_value s)))"
proof -
  have "decode_loop s 0 = Inr (b58_value s)"
    using assms(2) by (simp add: decode_loop_valid b58_value_def)
  then show ?thesis
    using assms(1) unfolding decode_def Let_def
    by (simp only: if_False sum.case unhexlify_pad count_pad_takeWhile b58_digits_0 add_0)
qed

lemma decode_invalid:
  assumes "\<not> set s \<subseteq> set b58_digits"
  shows "\<exists>c. decode s = Inl (InvalidBase58Error c) \<and> c \<in> set s \<and> c \<notin> set b58_digits"
proof -
  from assms have "s \<noteq> []" by auto
  with decode_loop_invalid [OF assms, of 0] show ?thesis
    by (auto simp: decode_def)
qed

lemma set_canonical: "set (replicate k CHR ''1'' @ b58_repr n) \<subseteq> set b58_digits"
  using set_b58_repr [of n] by (auto simp: b58_digits_def)

lemma b58_value_canonical: "b58_value (replicate k CHR ''1'' @ b58_repr n) = n"
proof -
  from decode_loop_valid [OF set_canonical, of k n 0]
  have "decode_loop (replicate k CHR ''1'' @ b58_repr n) 0 =
      Inr (b58_value (replicate k CHR ''1'' @ b58_repr n))"
    by (simp only: b58_value_def)
  moreover have "decode_loop (replicate k CHR ''1'' @ b58_repr n) 0 = Inr n"
    by (simp only: decode_loop_append decode_loop_ones decode_loop_repr sum.case)
  ultimately show ?thesis by simp
qed

lemma butlast_ones: "butlast (replicate (Suc j) c) = replicate j c"
proof -
  have "replicate (Suc j) c = replicate j c @ [c]"
    by (simp add: replicate_append_same)
  then show ?thesis by (simp only: butlast_snoc)
qed

lemma decode_ones: "decode (replicate (Suc j) CHR ''1'') = Inr (replicate (Suc j) 0)"
proof -
  let ?s = "replicate (Suc j) CHR ''1''"
  have "b58_value ?s = 0"
    using b58_value_canonical [of "Suc j" 0] by (simp add: b58_repr_0)
  moreover have "set ?s \<subseteq> set b58_digits"
    using set_canonical [of "Suc j" 0] by (simp add: b58_repr_0)
  moreover have "?s \<noteq> []" by simp
  ultimately have "decode ?s = Inr (replicate j 0 @ [0])"
    using decode_valid [of ?s] by (simp only: butlast_ones) simp
  then show ?thesis by (simp add: replicate_append_same)
qed

lemma decode_canonical:
  "decode (replicate (length (takeWhile (\<lambda>c. c = 0) b)) CHR ''1'' @ b58_repr (be_value b)) =
     Inr b"
proof -
  let ?k = "length (takeWhile (\<lambda>c. c = 0) b)"
  let ?n = "be_value b"
  let ?s = "replicate ?k CHR ''1'' @ b58_repr ?n"
  have val: "b58_value ?s = ?n" by (rule b58_value_canonical)
  have valid: "set ?s \<subseteq> set b58_digits" by (rule set_canonical)
  show ?thesis
  proof (cases "b = []")
    case True
    then show ?thesis by (simp add: b58_repr_0 decode_def be_value_def)
  next
    case ne: False
    show ?thesis
    proof (cases "?n = 0")
      case True
      then have "\<forall>x\<in>set b. x = 0" by (simp add: be_value_zero)
      then have tw: "takeWhile (\<lambda>c. c = 0) b = b" by simp
      then have "?k = length b" by (simp only:)
      with ne have "?k \<noteq> 0" by simp
      then obtain j where j: "?k = Suc j" by (cases ?k) auto
      have "?s = replicate (Suc j) CHR ''1''"
        using True j by (simp add: b58_repr_0)
      then have "decode ?s = Inr (replicate ?k 0)"
        using decode_ones [of j] j by simp
      also have "replicate ?k (0 :: 8 word) = b"
        using takeWhile_replicate_length [of 0 b] by (simp only: tw)
      finally show ?thesis .
    next
      case False
      then have r: "b58_repr ?n \<noteq> []" "hd (b58_repr ?n) \<noteq> CHR ''1''"
        by (simp_all add: b58_repr_Nil hd_b58_repr)
      have "takeWhile (\<lambda>c. c = CHR ''1'') (butlast (b58_repr ?n)) = []"
      proof (cases "butlast (b58_repr ?n)")
        case Nil
        then show ?thesis by simp
      next
        case (Cons x xs)
        then have "x = hd (b58_repr ?n)"
          using r(1) by (cases "b58_repr ?n") (auto split: if_splits)
        with r Cons show ?thesis by simp
      qed
      then have "takeWhile (\<lambda>c. c = CHR ''1'') (butlast ?s) = replicate ?k CHR ''1''"
        using r(1) by (simp add: butlast_append takeWhile_replicate_append)
      then have "decode ?s = Inr (replicate ?k 0 @ be_bytes ?n)"
        using decode_valid [of ?s] valid val False r(1) by simp
      also have "replicate ?k 0 @ be_bytes ?n = b"
        by (simp add: be_bytes_be_value takeWhile_replicate_length)
      finally show ?thesis .
    qed
  qed
qed

lemma decode_of_encode: "encode b = Inr s \<Longrightarrow> decode s = Inr b"
  using decode_canonical [of b] by (simp add: encode_eq)

section \<open>Facts about CBase58Data\<close>

lemma CBase58Data_new_decoded:
  assumes "decode s = Inr ((v # p) @ c)" and "length c = 4"
  shows "CBase58Data_new Hash s =
     (if c = take 4 (Hash (v # p)) then Inr \<lparr>data = p, nVersion = uint v\<rparr>
      else Inl (Base58ChecksumError c (take 4 (Hash (v # p)))))"
  using assms by (simp add: CBase58Data_new_def Let_def)

lemma CBase58Data_new_short:
  assumes "decode s = Inr k" and "length k \<le> 4"
  shows "CBase58Data_new Hash s =
     (case k of
        [] \<Rightarrow>
          if take 4 (Hash []) = [] then Inl IndexError
          else Inl (Base58ChecksumError [] (take 4 (Hash [])))
      | v # vs \<Rightarrow>
          if v # vs = take 4 (Hash [v]) then Inr \<lparr>data = [], nVersion = uint v\<rparr>
          else Inl (Base58ChecksumError (v # vs) (take 4 (Hash [v]))))"
proof (cases k)
  case Nil
  with assms show ?thesis
    by (auto simp: CBase58Data_new_def Let_def)
next
  case (Cons v vs)
  with assms show ?thesis
    by (simp add: CBase58Data_new_def Let_def)
qed

lemma CBase58Data_str_eq:
  assumes "0 \<le> v" and "v \<le> 255"
  shows "CBase58Data_str Hash \<lparr>data = p, nVersion = v\<rparr> =
     encode ((word_of_int v # p) @ take 4 (Hash (word_of_int v # p)))"
  using assms by (simp add: CBase58Data_str_def bchr_def Let_def)

lemma uint_version: "0 \<le> v \<Longrightarrow> v \<le> 255 \<Longrightarrow> uint (word_of_int v :: 8 word) = v"
  by (simp add: uint_word_of_int)

lemma replicate_4: "replicate 4 x = [x, x, x, x]"
  by (simp add: numeral_eq_Suc)

lemma take_4_sample_Hash:
  "take 4 (sample_Hash m) =
     [of_nat (length m), of_nat (length m), of_nat (length m), of_nat (length m)]"
  by (simp add: sample_Hash_def replicate_4)

lemma length_sample_Hash: "length (sample_Hash m) = 32"
  by (simp add: sample_Hash_def)

lemmas eval_decode = decode_def b58_digits_def format_x.simps hex_digits_def hex_value_def

section \<open>Base58Codec\<close>

text \<open>
  C1. Round trip: for every byte string \<open>b\<close>, encode returns a string and decode of
  that string returns \<open>b\<close> again. Nothing is assumed about \<open>b\<close>: it may be empty,
  all zero, or start with zero bytes.
\<close>

theorem decode_encode_roundtrip:
  "\<exists>s. encode b = Inr s \<and> decode s = Inr b"
  using decode_canonical [of b] by (simp add: encode_eq)

text \<open>
  C6. decode raises if and only if the string has a character outside the 58-symbol
  alphabet; the exception is then InvalidBase58Error, carrying such a character, and no
  other exception leaves decode. In particular the string \<open>0\<close> is rejected.
\<close>

theorem decode_fails_iff_outside_alphabet:
  "((\<exists>e. decode s = Inl e) \<longleftrightarrow> (\<exists>c\<in>set s. c \<notin> set b58_digits)) \<and>
   (\<forall>e. decode s = Inl e \<longrightarrow>
      (\<exists>c. e = InvalidBase58Error c \<and> c \<in> set s \<and> c \<notin> set b58_digits)) \<and>
   decode ''0'' = Inl (InvalidBase58Error CHR ''0'')"
proof -
  have zero: "decode ''0'' = Inl (InvalidBase58Error CHR ''0'')"
    by (simp add: decode_def b58_digits_def)
  show ?thesis
  proof (cases "set s \<subseteq> set b58_digits")
    case True
    then have "\<exists>r. decode s = Inr r"
      using decode_valid [of s] by (cases "s = []") (simp_all add: decode_def)
    with True zero show ?thesis by auto
  next
    case False
    from decode_invalid [OF this] obtain c
      where "decode s = Inl (InvalidBase58Error c)" "c \<in> set s" "c \<notin> set b58_digits"
      by blast
    with zero show ?thesis by auto
  qed
qed

theorem decode_fails_iff_outside_alphabet_witness:
  "CHR ''O'' \<in> set ''1O'' \<and> CHR ''O'' \<notin> set b58_digits \<and>
   (\<exists>c. decode ''1O'' = Inl (InvalidBase58Error c) \<and> c \<in> set ''1O'' \<and> c \<notin> set b58_digits)"
proof -
  have bad: "CHR ''O'' \<in> set ''1O''" "CHR ''O'' \<notin> set b58_digits"
    by (simp_all add: b58_digits_def)
  then have "\<exists>c\<in>set ''1O''. c \<notin> set b58_digits" by blast
  with decode_fails_iff_outside_alphabet [of "''1O''"] bad show ?thesis
    by blast
qed

text \<open>
  C8. Leading zeros: with \<open>k\<close> the number of leading zero bytes of \<open>b\<close> (all of
  them when \<open>b\<close> is zero throughout), encode returns \<open>k\<close> copies of the character
  \<open>1\<close> followed by the base-58 digits of the big-endian value of \<open>b\<close>. The result has
  exactly \<open>k\<close> leading \<open>1\<close>s, and when \<open>b\<close> has a non-zero byte the digit sequence
  is not empty and does not start with \<open>1\<close>.
\<close>

theorem encode_leading_zeros:
  "encode b = Inr (replicate (leading 0 b) (b58_digits ! 0) @ b58_repr (be_value b)) \<and>
   b58_digits ! 0 = CHR ''1'' \<and>
   (\<forall>s. encode b = Inr s \<longrightarrow> leading CHR ''1'' s = leading 0 b) \<and>
   ((\<exists>x\<in>set b. x \<noteq> 0) \<longrightarrow>
      b58_repr (be_value b) \<noteq> [] \<and> hd (b58_repr (be_value b)) \<noteq> CHR ''1'')"
proof -
  let ?r = "b58_repr (be_value b)"
  have nz: "?r \<noteq> [] \<and> hd ?r \<noteq> CHR ''1''" if "\<exists>x\<in>set b. x \<noteq> 0"
  proof -
    from that have "be_value b \<noteq> 0" by (simp add: be_value_zero)
    then show ?thesis by (simp add: b58_repr_Nil hd_b58_repr)
  qed
  have "takeWhile (\<lambda>c. c = CHR ''1'') ?r = []"
  proof (cases "be_value b = 0")
    case True
    then show ?thesis by (simp add: b58_repr_0)
  next
    case False
    then have "?r \<noteq> []" "hd ?r \<noteq> CHR ''1''"
      by (simp_all add: b58_repr_Nil hd_b58_repr)
    then show ?thesis by (cases ?r) simp_all
  qed
  then have "leading CHR ''1'' (replicate (leading 0 b) CHR ''1'' @ ?r) = leading 0 b"
    by (simp add: leading_def takeWhile_replicate_append)
  with nz show ?thesis
    by (simp add: encode_eq b58_digits_0 leading_def)
qed

theorem encode_leading_zeros_witness:
  "(\<exists>x\<in>set [0, 0, 1 :: 8 word]. x \<noteq> 0) \<and> leading 0 [0, 0, 1 :: 8 word] = 2 \<and>
   encode [0, 0, 1] = Inr (''11'' @ b58_repr (be_value [0, 0, 1])) \<and>
   leading CHR ''1'' (''11'' @ b58_repr (be_value [0, 0, 1])) = 2 \<and>
   hd (b58_repr (be_value [0, 0, 1])) \<noteq> CHR ''1''"
proof -
  have k: "leading 0 [0, 0, 1 :: 8 word] = 2"
    by (simp add: leading_def)
  have ex: "\<exists>x\<in>set [0, 0, 1 :: 8 word]. x \<noteq> 0"
    by simp
  from encode_leading_zeros [of "[0, 0, 1]"] ex k show ?thesis
    by (simp add: numeral_2_eq_2)
qed

text \<open>
  C9. A string of \<open>k \<ge> 1\<close> characters \<open>1\<close> decodes to \<open>k\<close> zero bytes: the scan
  for leading \<open>1\<close>s leaves the last character out and counts \<open>k - 1\<close>, the
  accumulated number is 0, and 0 is rendered as the one byte 0x00.
\<close>

theorem decode_all_ones:
  assumes "1 \<le> k"
  shows "decode (replicate k CHR ''1'') = Inr (replicate k 0) \<and>
         count_pad (b58_digits ! 0) (butlast (replicate k CHR ''1'')) 0 = k - 1 \<and>
         decode_loop (replicate k CHR ''1'') 0 = Inr 0 \<and>
         format_x 0 = ''0'' \<and> unhexlify ''00'' = Inr [0]"
proof -
  from assms obtain j where k: "k = Suc j" by (cases k) auto
  have "count_pad (b58_digits ! 0) (butlast (replicate k CHR ''1'')) 0 = k - 1"
    unfolding k butlast_ones by (simp add: count_pad_takeWhile b58_digits_0)
  moreover have "format_x 0 = ''0''"
    by (subst format_x.simps) (simp add: hex_digits_def)
  moreover have "unhexlify ''00'' = Inr [0]"
    by (simp add: hex_value_0)
  ultimately show ?thesis
    using decode_ones [of j] decode_loop_ones [of k] by (simp add: k)
qed

theorem decode_all_ones_witness:
  "(1::nat) \<le> 3 \<and> decode ''111'' = Inr [0, 0, 0]"
proof -
  have h: "(1::nat) \<le> 3" by simp
  have "replicate 3 CHR ''1'' = ''111''" "replicate 3 (0 :: 8 word) = [0, 0, 0]"
    by (simp_all add: numeral_3_eq_3)
  with decode_all_ones [OF h] show ?thesis by simp
qed

section \<open>CBase58Data.from_bytes\<close>

text \<open>
  C7. from_bytes raises exactly when the version is outside 0..255, and the exception is
  then the ValueError of the range check; versions 256 and -1 are refused, and every
  version from 0 to 255 gives an instance with that version and payload.
\<close>

theorem from_bytes_version_bound:
  "((\<exists>e. from_bytes p v = Inl e) \<longleftrightarrow> v < 0 \<or> 255 < v) \<and>
   (\<forall>e. from_bytes p v = Inl e \<longrightarrow> e = ValueError) \<and>
   (0 \<le> v \<and> v \<le> 255 \<longrightarrow> from_bytes p v = Inr \<lparr>data = p, nVersion = v\<rparr>) \<and>
   from_bytes p 256 = Inl ValueError \<and>
   from_bytes p (- 1) = Inl ValueError"
  by (auto simp: from_bytes_def)

theorem from_bytes_version_bound_witness:
  "(0::int) \<le> 255 \<and> from_bytes [7] 255 = Inr \<lparr>data = [7], nVersion = 255\<rparr> \<and>
   (256::int) > 255 \<and> (\<exists>e. from_bytes [7] 256 = Inl e)"
  using from_bytes_version_bound [of "[7]" 255] from_bytes_version_bound [of "[7]" 256]
  by simp

section \<open>CBase58Data: string form and constructor\<close>

text \<open>
  C2. Checksum round trip: for a version from 0 to 255, any payload and a collaborator
  whose digests are 32 bytes long, from_bytes gives an instance, its string form exists,
  and constructing CBase58Data from that string gives back the same version and payload.
\<close>

theorem serialize_parse_roundtrip:
  assumes "0 \<le> v" and "v \<le> 255" and "\<forall>m. length (Hash m) = 32"
  shows "\<exists>obj s. from_bytes p v = Inr obj \<and> CBase58Data_str Hash obj = Inr s \<and>
           CBase58Data_new Hash s = Inr \<lparr>data = p, nVersion = v\<rparr>"
proof -
  let ?w = "word_of_int v :: 8 word"
  let ?c = "take 4 (Hash (?w # p))"
  let ?obj = "\<lparr>data = p, nVersion = v\<rparr>"
  have obj: "from_bytes p v = Inr ?obj"
    using assms(1,2) by (simp add: from_bytes_def)
  obtain s where s: "encode ((?w # p) @ ?c) = Inr s"
    by (simp add: encode_eq)
  then have str: "CBase58Data_str Hash ?obj = Inr s"
    using assms(1,2) by (simp only: CBase58Data_str_eq)
  have "decode s = Inr ((?w # p) @ ?c)"
    using s by (rule decode_of_encode)
  moreover have "length ?c = 4"
    using assms(3) by simp
  ultimately have "CBase58Data_new Hash s = Inr \<lparr>data = p, nVersion = uint ?w\<rparr>"
    using CBase58Data_new_decoded [of s ?w p ?c Hash] by simp
  then have "CBase58Data_new Hash s = Inr ?obj"
    using assms(1,2) by (simp only: uint_version)
  with obj str show ?thesis by blast
qed

theorem serialize_parse_roundtrip_witness:
  "(0::int) \<le> 5 \<and> (5::int) \<le> 255 \<and> (\<forall>m. length (sample_Hash m) = 32) \<and>
   (\<exists>obj s. from_bytes [1, 2, 3] 5 = Inr obj \<and> CBase58Data_str sample_Hash obj = Inr s \<and>
      CBase58Data_new sample_Hash s = Inr \<lparr>data = [1, 2, 3], nVersion = 5\<rparr>)"
proof -
  have h: "(0::int) \<le> 5" "(5::int) \<le> 255" "\<forall>m. length (sample_Hash m) = 32"
    by (simp_all add: length_sample_Hash)
  from serialize_parse_roundtrip [OF h, of "[1, 2, 3]"] h show ?thesis
    by blast
qed

text \<open>
  C10. The constructor on the empty string raises Base58ChecksumError, for every
  collaborator with 32-byte digests: decode gives no bytes, the claimed checksum is
  empty and the computed one has 4 bytes, so the comparison fails before the version
  byte is read (the result is not IndexError).
\<close>

theorem parse_empty_string:
  assumes "\<forall>m. length (Hash m) = 32"
  shows "decode [] = Inr [] \<and>
         CBase58Data_new Hash [] = Inl (Base58ChecksumError [] (take 4 (Hash []))) \<and>
         length (take 4 (Hash [])) = 4"
proof -
  have d: "decode [] = Inr []"
    by (simp add: decode_def)
  have len: "length (take 4 (Hash [])) = 4"
    using assms by simp
  then have "take 4 (Hash []) \<noteq> []" by auto
  with CBase58Data_new_short [OF d, of Hash] d len show ?thesis
    by simp
qed

theorem parse_empty_string_witness:
  "(\<forall>m. length (sample_Hash m) = 32) \<and>
   CBase58Data_new sample_Hash [] = Inl (Base58ChecksumError [] [0, 0, 0, 0])"
proof -
  have h: "\<forall>m. length (sample_Hash m) = 32"
    by (simp add: length_sample_Hash)
  from parse_empty_string [OF h] h show ?thesis
    by (simp add: take_4_sample_Hash)
qed

text \<open>
  C3, checked as stated: a string whose decoded length is below 5 would have to be
  refused with an error other than the checksum error. The string \<open>2\<close> decodes to one
  byte and is refused with Base58ChecksumError; the string \<open>2VKqi\<close> decodes to the four
  bytes 01 01 01 01 and is accepted, with version 1 and an empty payload, when the
  collaborator's digest of the byte 01 starts with these four bytes.
\<close>

theorem short_input_counterexample:
  "decode ''2'' = Inr [1] \<and> length [1 :: 8 word] < 5 \<and>
   CBase58Data_new sample_Hash ''2'' = Inl (Base58ChecksumError [1] [1, 1, 1, 1]) \<and>
   decode ''2VKqi'' = Inr [1, 1, 1, 1] \<and> length [1, 1, 1, 1 :: 8 word] < 5 \<and>
   CBase58Data_new sample_Hash ''2VKqi'' = Inr \<lparr>data = [], nVersion = 1\<rparr>"
proof -
  have a: "decode ''2'' = Inr [1]"
    by (simp add: eval_decode)
  have b: "decode ''2VKqi'' = Inr [1, 1, 1, 1]"
    by (simp add: eval_decode)
  have "CBase58Data_new sample_Hash ''2'' = Inl (Base58ChecksumError [1] [1, 1, 1, 1])"
    by (simp add: CBase58Data_new_def a take_4_sample_Hash Let_def)
  moreover have "CBase58Data_new sample_Hash ''2VKqi'' = Inr \<lparr>data = [], nVersion = 1\<rparr>"
    by (simp add: CBase58Data_new_def b take_4_sample_Hash Let_def)
  ultimately show ?thesis using a b by simp
qed

text \<open>
  C3, as the code has it. The constructor has no length check and no error of its own
  for a short input. When decode succeeds with fewer than 5 bytes \<open>k\<close>, the payload
  slice is empty and the claimed checksum is all of \<open>k\<close>; with 32-byte digests the
  constructor raises Base58ChecksumError, unless \<open>k\<close> is exactly the 4 bytes
  \<open>Hash(k[0:1])[:4]\<close>, and then it returns the version \<open>k[0]\<close> with an empty
  payload. With fewer than 4 bytes it always raises Base58ChecksumError.
\<close>

theorem short_input_checksum_error:
  assumes "decode s = Inr k" and "length k < 5" and "\<forall>m. length (Hash m) = 32"
  shows "CBase58Data_new Hash s =
      (case k of
         [] \<Rightarrow> Inl (Base58ChecksumError [] (take 4 (Hash [])))
       | v # _ \<Rightarrow>
           if k = take 4 (Hash [v]) then Inr \<lparr>data = [], nVersion = uint v\<rparr>
           else Inl (Base58ChecksumError k (take 4 (Hash [v])))) \<and>
     (length k < 4 \<longrightarrow>
        CBase58Data_new Hash s = Inl (Base58ChecksumError k (take 4 (Hash (take 1 k)))))"
proof -
  from assms(2) have le: "length k \<le> 4" by simp
  have len: "length (take 4 (Hash m)) = 4" for m
    using assms(3) by simp
  then have ne: "take 4 (Hash m) \<noteq> []" for m
    by (metis length_0_conv zero_neq_numeral)
  note new = CBase58Data_new_short [OF assms(1) le, of Hash]
  show ?thesis
  proof (cases k)
    case Nil
    with new ne [of "[]"] show ?thesis by simp
  next
    case (Cons v vs)
    have "v # vs \<noteq> take 4 (Hash [v])" if "length k < 4"
    proof
      assume "v # vs = take 4 (Hash [v])"
      then have "length (v # vs) = 4"
        by (metis len)
      with that Cons show False by simp
    qed
    with new show ?thesis unfolding Cons by simp
  qed
qed

theorem short_input_checksum_error_witness:
  "decode ''2'' = Inr [1] \<and> length [1 :: 8 word] < 5 \<and>
   (\<forall>m. length (sample_Hash m) = 32) \<and>
   CBase58Data_new sample_Hash ''2'' = Inl (Base58ChecksumError [1] (take 4 (sample_Hash [1])))"
proof -
  have h: "decode ''2'' = Inr [1]" "length [1 :: 8 word] < 5"
      "\<forall>m. length (sample_Hash m) = 32"
    by (simp_all add: eval_decode length_sample_Hash)
  have "[1 :: 8 word] \<noteq> take 4 (sample_Hash [1])"
    by (simp add: take_4_sample_Hash)
  with short_input_checksum_error [OF h] h show ?thesis
    by simp
qed

text \<open>
  C4. The checksum is the first 4 bytes of the digest primitive applied twice to the
  version byte followed by the payload, both where the string form appends it and where
  the constructor checks it.
\<close>

theorem checksum_is_double_hash:
  "(0 \<le> v \<and> v \<le> 255 \<longrightarrow>
      CBase58Data_str (core_Hash H) \<lparr>data = p, nVersion = v\<rparr> =
        encode ((word_of_int v # p) @ take 4 (H (H (word_of_int v # p))))) \<and>
   (decode s = Inr ((b # q) @ c) \<and> length c = 4 \<longrightarrow>
      CBase58Data_new (core_Hash H) s =
        (if c = take 4 (H (H (b # q))) then Inr \<lparr>data = q, nVersion = uint b\<rparr>
         else Inl (Base58ChecksumError c (take 4 (H (H (b # q)))))))"
  using CBase58Data_str_eq [of v "core_Hash H" p]
    CBase58Data_new_decoded [of s b q c "core_Hash H"]
  by (simp add: core_Hash_def)

theorem checksum_is_double_hash_witness:
  "(0::int) \<le> 1 \<and> (1::int) \<le> 255 \<and>
   CBase58Data_str (core_Hash sample_Hash) \<lparr>data = [], nVersion = 1\<rparr> =
     encode [1, 32, 32, 32, 32] \<and>
   decode ''11111'' = Inr ((0 # []) @ [0, 0, 0, 0]) \<and> length [0, 0, 0, 0 :: 8 word] = 4 \<and>
   CBase58Data_new (core_Hash sample_Hash) ''11111'' =
     Inl (Base58ChecksumError [0, 0, 0, 0] [32, 32, 32, 32])"
proof -
  have d: "decode ''11111'' = Inr ((0 # []) @ [0, 0, 0, 0])"
    by (simp add: eval_decode)
  have t: "take 4 (sample_Hash (sample_Hash [x])) = [32, 32, 32, 32]" for x
    by (simp add: take_4_sample_Hash length_sample_Hash)
  from checksum_is_double_hash [of 1 sample_Hash "[]" "''11111''" 0 "[]" "[0, 0, 0, 0]"] d t
  show ?thesis by simp
qed

section \<open>decode: the closed form\<close>

text \<open>
  C5, checked as stated: on the string \<open>1\<close> the scan over the string without its last
  character counts no \<open>1\<close>, the accumulated number is 0 and its minimal byte
  representation is empty, so the stated result would be the empty byte string; decode
  returns the single byte 0x00.
\<close>

theorem decode_zero_counterexample:
  "''1'' \<noteq> [] \<and> set ''1'' \<subseteq> set b58_digits \<and> decode ''1'' = Inr [0] \<and>
   replicate (leading CHR ''1'' (butlast ''1'')) 0 @ be_bytes (b58_value ''1'') = ([] :: bytes)"
proof -
  have "decode ''1'' = Inr [0]"
    by (simp add: eval_decode)
  moreover have "replicate (leading CHR ''1'' (butlast ''1'')) 0 @ be_bytes (b58_value ''1'') =
      ([] :: bytes)"
    by (simp add: leading_def b58_value_def b58_index_def b58_digits_def be_bytes.simps)
  moreover have "set ''1'' \<subseteq> set b58_digits"
    by (simp add: b58_digits_def)
  ultimately show ?thesis by simp
qed

text \<open>
  C5, as the code has it. For a non-empty string of alphabet characters, the loop
  accumulates the number \<open>n\<close> that the string denotes in base 58, and decode returns as
  many zero bytes as the string without its last character has leading \<open>1\<close>s, followed
  by the minimal big-endian bytes of \<open>n\<close> when \<open>n > 0\<close> and by the single byte 0x00
  when \<open>n = 0\<close>.
\<close>

theorem decode_closed_form:
  assumes "s \<noteq> []" and "set s \<subseteq> set b58_digits"
  shows "decode_loop s 0 = Inr (b58_value s) \<and>
         decode s =
           Inr (replicate (leading CHR ''1'' (butlast s)) 0 @
                (if b58_value s = 0 then [0] else be_bytes (b58_value s)))"
  using decode_valid [OF assms] decode_loop_valid [OF assms(2), of 0]
  by (simp add: leading_def b58_value_def)

theorem decode_closed_form_witness:
  "''12'' \<noteq> [] \<and> set ''12'' \<subseteq> set b58_digits \<and> b58_value ''12'' = 1 \<and>
   decode ''12'' = Inr [0, 1]"
proof -
  have h: "''12'' \<noteq> []" "set ''12'' \<subseteq> set b58_digits"
    by (simp_all add: b58_digits_def)
  have v: "b58_value ''12'' = 1"
    by (simp add: b58_value_def b58_index_def b58_digits_def)
  have "be_bytes 1 = [1]"
    by (simp add: be_bytes.simps)
  with decode_closed_form [OF h] h v show ?thesis
    by (simp add: leading_def)
qed

end
